theory Spec2Isabelle
  imports Main "HOL-Library.Word" "HOL-Library.Multiset"
begin

section \<open>The feed worker: data\<close>

text \<open>
  The development follows the concurrent worker of the feed system (package \<open>worker\<close>):
  \<open>New\<close>, \<open>Run\<close>, \<open>readLoop\<close>, \<open>processLoop\<close>, \<open>waitWithContext\<close> and \<open>Close\<close>.

  Go's \<open>int\<close> is taken at 64 bits (the amd64 and arm64 targets): arithmetic wraps, and
  comparisons with zero read the word as two's complement (\<open>sint\<close>).
  A message payload (\<open>[]byte\<close>) is a list of 8-bit characters. A Go \<open>error\<close> value is
  kept as its message.
\<close>

type_synonym go_int = "64 word"
type_synonym payload = string

datatype go_error = GoError string

text \<open>\<open>models.Post\<close>; the creation time is kept as a number.\<close>

record Post =
  ID :: string
  AuthorID :: string
  Body :: string
  Created :: int

text \<open>
  The \<open>Worker\<close> struct. The two interface values (store and Kafka reader) are carried
  as they are; what they answer when called is supplied by the environment, see below.
\<close>

record ('s, 'r) Worker =
  store :: 's
  reader :: 'r
  workerCount :: go_int
  jobQueueSize :: go_int

text \<open>One constructor for every call of the logger in the worker.\<close>

datatype log_entry =
    LogStarting go_int go_int
  | LogAllStopped
  | LogReadError go_error
  | LogQueueFull
  | LogInvalidJSON go_error
  | LogFollowersError go_error
  | LogFeedError go_error
  | LogDelivered
  | LogClosingReader
  | LogReaderCloseError go_error
  | LogClosingStore

section \<open>The constructor\<close>

text \<open>
  \<open>New\<close>; \<open>numCPU\<close> is what \<open>runtime.NumCPU()\<close> answers. The product
  \<open>workerCount * 10\<close> is a product of 64-bit words.
\<close>

definition New :: "go_int \<Rightarrow> 's \<Rightarrow> 'r \<Rightarrow> go_int \<Rightarrow> go_int \<Rightarrow> ('s, 'r) Worker" where
  "New numCPU st rd wc jq =
     (let wc1 = (if sint wc \<le> 0 then numCPU else wc);
          jq1 = (if sint jq \<le> 0 then wc1 * 10 else jq)
      in \<lparr>store = st, reader = rd, workerCount = wc1, jobQueueSize = jq1\<rparr>)"

section \<open>Back-off and waiting\<close>

text \<open>
  The delay of \<open>readLoop\<close> after a failed read, in milliseconds:
  \<open>time.Duration(math.Min(1000, math.Pow(2, float64(retry)))) * time.Millisecond\<close>.
  For \<open>0 \<le> retry\<close> the power of two is exact in \<open>float64\<close> up to \<open>2 ^ 1023\<close> and
  \<open>+Inf\<close> beyond, so the minimum with 1000 is the integer \<open>min 1000 (2 ^ retry)\<close>.
  For a negative \<open>retry\<close> the power lies between 0 and 1 and the conversion to
  \<open>time.Duration\<close> truncates it to 0.
\<close>

definition backoff :: "go_int \<Rightarrow> int" where
  "backoff retry = (if sint retry < 0 then 0 else min 1000 (2 ^ nat (sint retry)))"

text \<open>
  \<open>waitWithContext\<close> selects between cancellation and its timer. The branch taken is
  the scheduler's choice; a branch is open only if its channel is ready. The answer
  is \<open>None\<close> when the chosen branch is not open.
\<close>

datatype wait_choice = CtxDone | TimerFired

definition waitWithContext :: "bool \<Rightarrow> wait_choice \<Rightarrow> bool option" where
  "waitWithContext cancelled c =
     (case c of
        CtxDone \<Rightarrow> (if cancelled then Some False else None)
      | TimerFired \<Rightarrow> Some True)"

section \<open>Closing\<close>

text \<open>
  \<open>Worker.Close\<close>. The argument is what \<open>reader.Close()\<close> answers (\<open>None\<close> for
  \<open>nil\<close>); the result lists what was done, in order, and the error returned.
  \<open>store.Close()\<close> has no result.
\<close>

datatype close_effect = Logged log_entry | ReaderClose | StoreClose

definition Close :: "go_error option \<Rightarrow> close_effect list \<times> go_error option" where
  "Close reader_close =
     (case reader_close of
        Some err \<Rightarrow>
          ([Logged LogClosingReader, ReaderClose, Logged (LogReaderCloseError err)], Some err)
      | None \<Rightarrow>
          ([Logged LogClosingReader, ReaderClose, Logged LogClosingStore, StoreClose], None))"

section \<open>The running system\<close>

text \<open>
  \<open>Run\<close> starts \<open>workerCount\<close> goroutines in \<open>processLoop\<close> and runs \<open>readLoop\<close>
  itself; each fan-out starts one goroutine per follower. The state below holds the
  shared objects (the context, the \<open>jobs\<close> channel) and, for every goroutine, the
  place where it stands with its local variables. The places are the points where the
  code blocks or selects.
\<close>

text \<open>
  The goroutine of \<open>Run\<close>. Inside \<open>readLoop\<close> every place carries the local \<open>retry\<close>:
  \<^item> \<open>RTop\<close>: the \<open>select\<close> at the head of the loop;
  \<^item> \<open>RReading\<close>: in \<open>reader.ReadMessage(ctx)\<close>;
  \<^item> \<open>RBackoff\<close>: in \<open>waitWithContext(ctx, backoff)\<close>, with the delay asked for;
  \<^item> \<open>RIdle\<close>: in \<open>waitWithContext(ctx, 50ms)\<close> after an empty message;
  \<^item> \<open>RPush\<close>: in the \<open>select\<close> that sends \<open>msg.Value\<close> to \<open>jobs\<close>.
  After \<open>readLoop\<close> has returned: \<open>RClose\<close> before \<open>close(jobs)\<close>, \<open>RJoin\<close> in
  \<open>wg.Wait()\<close>, \<open>RDone\<close> when \<open>Run\<close> has returned. \<open>RPanic\<close> is a run-time panic
  (a send on a closed channel, or closing a closed channel).
\<close>

datatype run_pc =
    RTop go_int
  | RReading go_int
  | RBackoff go_int int
  | RIdle go_int
  | RPush go_int payload
  | RClose
  | RJoin
  | RDone
  | RPanic

text \<open>
  A goroutine in \<open>processLoop\<close>:
  \<^item> \<open>WSelect\<close>: the \<open>select\<close> between cancellation and a receive from \<open>jobs\<close>;
  \<^item> \<open>WRange post us\<close>: at the head of \<open>for _, uid := range followers\<close>, with the
    followers still to visit;
  \<^item> \<open>WAcquire post u us\<close>: past the cancellation check for \<open>u\<close>, in
    \<open>semaphore <- struct{}{}\<close>;
  \<^item> \<open>WWait post\<close>: in \<open>fanoutWG.Wait()\<close>;
  \<^item> \<open>WReturned\<close>: \<open>processLoop\<close> has returned.
  \<open>inflight\<close> are the fan-out goroutines this worker has started and that have not
  finished (each holds one slot of the semaphore); \<open>calls\<close> are the \<open>AddToFeed\<close> calls
  of this worker's fan-out goroutines that have finished, in the order they finished.
\<close>

datatype worker_pc =
    WSelect
  | WRange Post "string list"
  | WAcquire Post string "string list"
  | WWait Post
  | WReturned

record worker =
  pc :: worker_pc
  inflight :: "(string \<times> Post) list"
  calls :: "(string \<times> Post) list"

text \<open>
  The whole system: whether the context is cancelled; the payloads in the buffer of
  \<open>jobs\<close>, oldest first, its capacity and whether it is closed; how often it has been
  closed; the goroutine of \<open>Run\<close>; the workers; the log.
\<close>

record sys =
  ctx_done :: bool
  jobs :: "payload list"
  jobs_cap :: nat
  jobs_closed :: bool
  closes :: nat
  main :: run_pc
  workers :: "worker list"
  log :: "log_entry list"

definition fanoutLimit :: nat where
  "fanoutLimit = 20"

subsection \<open>Starting\<close>

text \<open>The first lines of \<open>Run\<close>: the two fields are repaired in place.\<close>

definition Run_defaults :: "('s, 'r) Worker \<Rightarrow> ('s, 'r) Worker" where
  "Run_defaults w =
     (let w1 = (if sint (workerCount w) \<le> 0 then w\<lparr>workerCount := 1\<rparr> else w);
          w2 = (if sint (jobQueueSize w1) \<le> 0 then w1\<lparr>jobQueueSize := 10\<rparr> else w1)
      in w2)"

text \<open>
  The state once \<open>Run\<close> has made the channel and started the workers and is about to
  enter \<open>readLoop\<close> (\<open>retry\<close> is 0). \<open>cancelled\<close> says whether the context was already
  cancelled. Limits of memory (a channel or a number of goroutines too large to
  allocate) are outside the model.
\<close>

definition Run_start :: "bool \<Rightarrow> ('s, 'r) Worker \<Rightarrow> sys" where
  "Run_start cancelled w =
     (let w1 = Run_defaults w in
      \<lparr>ctx_done = cancelled,
       jobs = [],
       jobs_cap = nat (sint (jobQueueSize w1)),
       jobs_closed = False,
       closes = 0,
       main = RTop 0,
       workers = replicate (nat (sint (workerCount w1))) \<lparr>pc = WSelect, inflight = [], calls = []\<rparr>,
       log = [LogStarting (workerCount w1) (jobQueueSize w1)]\<rparr>)"

subsection \<open>Steps of \<open>Run\<close> and \<open>readLoop\<close>\<close>

text \<open>
  Each function below is one step of one goroutine, \<open>None\<close> when the step cannot be
  taken in the state. What the reader and the store answer when they are called comes
  with the step. Time is not measured: a timer that has been started can fire at any
  later step. A \<open>select\<close> with several branches open takes any of them. The context
  is cancelled from outside at any moment.
\<close>

definition cancel :: "sys \<Rightarrow> sys option" where
  "cancel s = Some (s\<lparr>ctx_done := True\<rparr>)"

text \<open>
  The \<open>select\<close> at the head of \<open>readLoop\<close> has a \<open>default\<close>: it returns if the context
  is cancelled and calls \<open>ReadMessage\<close> otherwise.
\<close>

definition readLoop_select :: "sys \<Rightarrow> sys option" where
  "readLoop_select s =
     (case main s of
        RTop retry \<Rightarrow> Some (s\<lparr>main := (if ctx_done s then RClose else RReading retry)\<rparr>)
      | _ \<Rightarrow> None)"

text \<open>
  \<open>ReadMessage\<close> returns \<open>r\<close>: an error, or a message with the value \<open>v\<close>. After a
  successful read \<open>retry\<close> is set to 0 before anything else.
\<close>

definition readLoop_read :: "go_error + payload \<Rightarrow> sys \<Rightarrow> sys option" where
  "readLoop_read r s =
     (case main s of
        RReading retry \<Rightarrow>
          (case r of
             Inl err \<Rightarrow>
               Some (s\<lparr>main := RBackoff retry (backoff retry),
                       log := log s @ [LogReadError err]\<rparr>)
           | Inr v \<Rightarrow>
               (let retry0 = 0 in
                if length v = 0 then Some (s\<lparr>main := RIdle retry0\<rparr>)
                else Some (s\<lparr>main := RPush retry0 v\<rparr>)))
      | _ \<Rightarrow> None)"

text \<open>\<open>waitWithContext\<close> returns: \<open>readLoop\<close> returns on \<open>false\<close> and goes on otherwise.\<close>

definition readLoop_wait :: "wait_choice \<Rightarrow> sys \<Rightarrow> sys option" where
  "readLoop_wait c s =
     (case main s of
        RBackoff retry d \<Rightarrow>
          (case waitWithContext (ctx_done s) c of
             None \<Rightarrow> None
           | Some ok \<Rightarrow> Some (s\<lparr>main := (if ok then RTop (retry + 1) else RClose)\<rparr>))
      | RIdle retry \<Rightarrow>
          (case waitWithContext (ctx_done s) c of
             None \<Rightarrow> None
           | Some ok \<Rightarrow> Some (s\<lparr>main := (if ok then RTop retry else RClose)\<rparr>))
      | _ \<Rightarrow> None)"

text \<open>
  The \<open>select\<close> of the push has three branches: the send (open when the buffer has
  room; a send on a closed channel panics), cancellation, and the timer of
  \<open>time.After(100ms)\<close>, after which the loop goes on without the payload.
\<close>

datatype push_choice = Send | PushCtxDone | Timeout

definition readLoop_push :: "push_choice \<Rightarrow> sys \<Rightarrow> sys option" where
  "readLoop_push c s =
     (case main s of
        RPush retry v \<Rightarrow>
          (case c of
             Send \<Rightarrow>
               (if jobs_closed s then Some (s\<lparr>main := RPanic\<rparr>)
                else if length (jobs s) < jobs_cap s
                  then Some (s\<lparr>jobs := jobs s @ [v], main := RTop retry\<rparr>)
                else None)
           | PushCtxDone \<Rightarrow> (if ctx_done s then Some (s\<lparr>main := RClose\<rparr>) else None)
           | Timeout \<Rightarrow> Some (s\<lparr>main := RTop retry, log := log s @ [LogQueueFull]\<rparr>))
      | _ \<Rightarrow> None)"

text \<open>\<open>close(jobs)\<close>; \<open>closes\<close> counts how often the channel has been closed.\<close>

definition Run_close :: "sys \<Rightarrow> sys option" where
  "Run_close s =
     (case main s of
        RClose \<Rightarrow>
          (if jobs_closed s then Some (s\<lparr>main := RPanic\<rparr>)
           else Some (s\<lparr>jobs_closed := True, closes := closes s + 1, main := RJoin\<rparr>))
      | _ \<Rightarrow> None)"

text \<open>\<open>wg.Wait()\<close> returns once every worker has returned from \<open>processLoop\<close>.\<close>

definition Run_wait :: "sys \<Rightarrow> sys option" where
  "Run_wait s =
     (case main s of
        RJoin \<Rightarrow>
          (if list_all (\<lambda>w. pc w = WReturned) (workers s)
           then Some (s\<lparr>main := RDone, log := log s @ [LogAllStopped]\<rparr>)
           else None)
      | _ \<Rightarrow> None)"

subsection \<open>Steps of \<open>processLoop\<close>\<close>

definition set_worker :: "nat \<Rightarrow> worker \<Rightarrow> sys \<Rightarrow> sys" where
  "set_worker i w s = s\<lparr>workers := (workers s)[i := w]\<rparr>"

text \<open>The \<open>select\<close> of worker \<open>i\<close> takes the branch \<open>case <-ctx.Done()\<close>.\<close>

definition processLoop_cancel :: "nat \<Rightarrow> sys \<Rightarrow> sys option" where
  "processLoop_cancel i s =
     (if i < length (workers s) \<and> pc (workers s ! i) = WSelect \<and> ctx_done s
      then Some (set_worker i ((workers s ! i)\<lparr>pc := WReturned\<rparr>) s)
      else None)"

text \<open>
  The \<open>select\<close> of worker \<open>i\<close> takes the branch \<open>case data, ok := <-jobs\<close>: open when
  the buffer holds a payload or the channel is closed. \<open>unmarshal\<close> is
  \<open>json.Unmarshal\<close> into a \<open>models.Post\<close>; \<open>gf\<close> is what \<open>store.GetFollowers\<close>
  answers for the author of the post.
\<close>

definition processLoop_recv ::
  "(payload \<Rightarrow> go_error + Post) \<Rightarrow> nat \<Rightarrow> go_error + string list \<Rightarrow> sys \<Rightarrow> sys option" where
  "processLoop_recv unmarshal i gf s =
     (if i < length (workers s) \<and> pc (workers s ! i) = WSelect then
        (case jobs s of
           [] \<Rightarrow>
             (if jobs_closed s
              then Some (set_worker i ((workers s ! i)\<lparr>pc := WReturned\<rparr>) s)
              else None)
         | data # rest \<Rightarrow>
             (case unmarshal data of
                Inl err \<Rightarrow> Some (s\<lparr>jobs := rest, log := log s @ [LogInvalidJSON err]\<rparr>)
              | Inr post \<Rightarrow>
                  (case gf of
                     Inl err \<Rightarrow>
                       Some (s\<lparr>jobs := rest, log := log s @ [LogFollowersError err]\<rparr>)
                   | Inr followers \<Rightarrow>
                       Some (set_worker i ((workers s ! i)\<lparr>pc := WRange post followers\<rparr>)
                              (s\<lparr>jobs := rest\<rparr>)))))
      else None)"

text \<open>
  The head of the loop over the followers. With no follower left the worker goes to
  \<open>fanoutWG.Wait()\<close>. Otherwise the \<open>select\<close> with \<open>default\<close> returns from
  \<open>processLoop\<close> if the context is cancelled, and goes on to the semaphore if not.
\<close>

definition processLoop_range :: "nat \<Rightarrow> sys \<Rightarrow> sys option" where
  "processLoop_range i s =
     (if i < length (workers s) then
        (case pc (workers s ! i) of
           WRange post us \<Rightarrow>
             (case us of
                [] \<Rightarrow> Some (set_worker i ((workers s ! i)\<lparr>pc := WWait post\<rparr>) s)
              | u # rest \<Rightarrow>
                  (if ctx_done s
                   then Some (set_worker i ((workers s ! i)\<lparr>pc := WReturned\<rparr>) s)
                   else Some (set_worker i ((workers s ! i)\<lparr>pc := WAcquire post u rest\<rparr>) s)))
         | _ \<Rightarrow> None)
      else None)"

text \<open>
  The send to the semaphore goes through when fewer than \<open>fanoutLimit\<close> fan-out
  goroutines of this worker are running; the goroutine for \<open>u\<close> is started.
\<close>

definition processLoop_acquire :: "nat \<Rightarrow> sys \<Rightarrow> sys option" where
  "processLoop_acquire i s =
     (if i < length (workers s) then
        (case pc (workers s ! i) of
           WAcquire post u rest \<Rightarrow>
             (if length (inflight (workers s ! i)) < fanoutLimit
              then Some (set_worker i
                     ((workers s ! i)\<lparr>pc := WRange post rest,
                                       inflight := inflight (workers s ! i) @ [(u, post)]\<rparr>) s)
              else None)
         | _ \<Rightarrow> None)
      else None)"

text \<open>\<open>fanoutWG.Wait()\<close> returns when no fan-out goroutine of the worker is running.\<close>

definition processLoop_wait :: "nat \<Rightarrow> sys \<Rightarrow> sys option" where
  "processLoop_wait i s =
     (if i < length (workers s) then
        (case pc (workers s ! i) of
           WWait post \<Rightarrow>
             (if inflight (workers s ! i) = []
              then Some ((set_worker i ((workers s ! i)\<lparr>pc := WSelect\<rparr>) s)
                          \<lparr>log := log s @ [LogDelivered]\<rparr>)
              else None)
         | _ \<Rightarrow> None)
      else None)"

text \<open>
  The fan-out goroutine number \<open>j\<close> of worker \<open>i\<close> runs \<open>store.AddToFeed(u, post)\<close>,
  which answers \<open>res\<close>, frees its slot of the semaphore and is done.
\<close>

definition fanout_done :: "nat \<Rightarrow> nat \<Rightarrow> go_error option \<Rightarrow> sys \<Rightarrow> sys option" where
  "fanout_done i j res s =
     (if i < length (workers s) \<and> j < length (inflight (workers s ! i)) then
        (let w = workers s ! i;
             w1 = w\<lparr>inflight := take j (inflight w) @ drop (Suc j) (inflight w),
                    calls := calls w @ [inflight w ! j]\<rparr>;
             s1 = set_worker i w1 s
         in case res of
              None \<Rightarrow> Some s1
            | Some err \<Rightarrow> Some (s1\<lparr>log := log s @ [LogFeedError err]\<rparr>))
      else None)"

subsection \<open>Runs\<close>

datatype event =
    Cancel
  | ReadCheck
  | ReadReturn "go_error + payload"
  | WaitReturn wait_choice
  | Push push_choice
  | CloseJobs
  | Join
  | WorkerCancel nat
  | WorkerRecv nat "go_error + string list"
  | WorkerNext nat
  | WorkerAcquire nat
  | WorkerWait nat
  | FeedDone nat nat "go_error option"

fun step :: "(payload \<Rightarrow> go_error + Post) \<Rightarrow> event \<Rightarrow> sys \<Rightarrow> sys option" where
  "step um Cancel s = cancel s"
| "step um ReadCheck s = readLoop_select s"
| "step um (ReadReturn r) s = readLoop_read r s"
| "step um (WaitReturn c) s = readLoop_wait c s"
| "step um (Push c) s = readLoop_push c s"
| "step um CloseJobs s = Run_close s"
| "step um Join s = Run_wait s"
| "step um (WorkerCancel i) s = processLoop_cancel i s"
| "step um (WorkerRecv i gf) s = processLoop_recv um i gf s"
| "step um (WorkerNext i) s = processLoop_range i s"
| "step um (WorkerAcquire i) s = processLoop_acquire i s"
| "step um (WorkerWait i) s = processLoop_wait i s"
| "step um (FeedDone i j res) s = fanout_done i j res s"

text \<open>A schedule is a list of events; it runs as long as every step can be taken.\<close>

fun run :: "(payload \<Rightarrow> go_error + Post) \<Rightarrow> event list \<Rightarrow> sys \<Rightarrow> sys option" where
  "run um [] s = Some s"
| "run um (e # es) s = (case step um e s of None \<Rightarrow> None | Some s1 \<Rightarrow> run um es s1)"

subsection \<open>Invariants of a run\<close>

text \<open>
  What holds in every state of a run of \<open>Run\<close>: the channel is closed exactly in the
  states after \<open>close(jobs)\<close>, it has been closed as often, no panic has happened,
  \<open>Run\<close> has returned only with every worker returned, and \<open>readLoop\<close> has returned
  only with the context cancelled.
\<close>

definition run_inv :: "sys \<Rightarrow> bool" where
  "run_inv s =
     ((jobs_closed s = (main s = RJoin \<or> main s = RDone))
      \<and> closes s = (if jobs_closed s then 1 else 0)
      \<and> main s \<noteq> RPanic
      \<and> (main s \<noteq> RDone \<or> list_all (\<lambda>w. pc w = WReturned) (workers s))
      \<and> ((main s \<noteq> RClose \<and> main s \<noteq> RJoin \<and> main s \<noteq> RDone) \<or> ctx_done s))"

text \<open>A worker at its \<open>select\<close> has no fan-out goroutine running.\<close>

definition idle_inv :: "sys \<Rightarrow> bool" where
  "idle_inv s = list_all (\<lambda>w. pc w \<noteq> WSelect \<or> inflight w = []) (workers s)"

text \<open>
  The local \<open>retry\<close> of \<open>readLoop\<close> is 0 and the loop is not waiting after a failed
  read (or \<open>readLoop\<close> has returned).
\<close>

fun retry_zero :: "run_pc \<Rightarrow> bool" where
  "retry_zero (RTop r) = (r = 0)"
| "retry_zero (RReading r) = (r = 0)"
| "retry_zero (RBackoff r d) = False"
| "retry_zero (RIdle r) = (r = 0)"
| "retry_zero (RPush r v) = (r = 0)"
| "retry_zero RClose = True"
| "retry_zero RJoin = True"
| "retry_zero RDone = True"
| "retry_zero RPanic = True"

definition is_read_error :: "event \<Rightarrow> bool" where
  "is_read_error e = (case e of ReadReturn (Inl err) \<Rightarrow> True | _ \<Rightarrow> False)"

definition is_recv_of :: "nat \<Rightarrow> event \<Rightarrow> bool" where
  "is_recv_of i e = (case e of WorkerRecv k gf \<Rightarrow> k = i | _ \<Rightarrow> False)"

text \<open>
  The progress of one fan-out of the post \<open>P\<close>: \<open>all\<close> are the writes to make,
  \<open>started\<close> the writes finished or running; the followers still to visit make up the
  difference, and none is left when the worker is back at its \<open>select\<close>.
\<close>

definition fan_state ::
  "Post \<Rightarrow> (string \<times> Post) multiset \<Rightarrow> (string \<times> Post) multiset \<Rightarrow> worker_pc \<Rightarrow> bool" where
  "fan_state P all started p =
     (case p of
        WSelect \<Rightarrow> started = all
      | WRange q us \<Rightarrow> q = P \<and> started + mset (map (\<lambda>u. (u, P)) us) = all
      | WAcquire q u us \<Rightarrow> q = P \<and> started + mset (map (\<lambda>u. (u, P)) (u # us)) = all
      | WWait q \<Rightarrow> q = P \<and> started = all
      | WReturned \<Rightarrow> False)"

text \<open>
  The same for a worker that had made the calls \<open>base\<close> when it received the post
  \<open>P\<close> with the followers \<open>F\<close>.
\<close>

definition fan_inv :: "Post \<Rightarrow> string list \<Rightarrow> (string \<times> Post) list \<Rightarrow> worker \<Rightarrow> bool" where
  "fan_inv P F base w =
     (take (length base) (calls w) = base
      \<and> (pc w \<noteq> WSelect \<or> inflight w = [])
      \<and> fan_state P (mset (map (\<lambda>u. (u, P)) F))
           (mset (drop (length base) (calls w)) + mset (inflight w)) (pc w))"

text \<open>
  The schedule on which worker \<open>i\<close> visits the followers one after the other and each
  write finishes before the next follower is visited.
\<close>

definition fanout_in_turn :: "nat \<Rightarrow> string list \<Rightarrow> event list" where
  "fanout_in_turn i F =
     concat (map (\<lambda>u. [WorkerNext i, WorkerAcquire i, FeedDone i 0 None]) F)
       @ [WorkerNext i, WorkerWait i]"

subsection \<open>Examples\<close>

text \<open>
  The data of the examples: a worker with one goroutine and a buffer of one payload, a
  post as the tests of the worker build it, and a decoder for the examples that
  accepts the single payload \<open>post-100\<close> and rejects every other one.
\<close>

definition test_worker :: "(unit, unit) Worker" where
  "test_worker = \<lparr>store = (), reader = (), workerCount = 1, jobQueueSize = 1\<rparr>"

definition test_post :: Post where
  "test_post = \<lparr>ID = ''100'', AuthorID = ''1'', Body = ''Hello followers!'', Created = 0\<rparr>"

definition test_unmarshal :: "payload \<Rightarrow> go_error + Post" where
  "test_unmarshal d =
     (if d = ''post-100'' then Inr test_post else Inl (GoError ''invalid character''))"

text \<open>
  A payload is read and buffered, the context is cancelled, \<open>readLoop\<close> returns, the
  channel is closed, the worker's \<open>select\<close> takes the cancellation branch, and \<open>Run\<close>
  returns.
\<close>

definition lost_schedule :: "event list" where
  "lost_schedule =
     [ReadCheck, ReadReturn (Inr ''post-100''), Push Send, Cancel, ReadCheck, CloseJobs,
      WorkerCancel 0, Join]"

text \<open>
  A post with the followers 2 and 3: the write for 2 is started, the context is
  cancelled before its \<open>AddToFeed\<close> has finished, the worker comes to follower 3,
  and \<open>Run\<close> goes on to its end.
\<close>

definition orphan_schedule :: "event list" where
  "orphan_schedule =
     [ReadCheck, ReadReturn (Inr ''post-100''), Push Send, WorkerRecv 0 (Inr [''2'', ''3'']),
      WorkerNext 0, WorkerAcquire 0, Cancel, WorkerNext 0, ReadCheck, CloseJobs, Join]"

text \<open>A second payload is read while the first one still fills the buffer.\<close>

definition full_schedule :: "event list" where
  "full_schedule =
     [ReadCheck, ReadReturn (Inr ''post-100''), Push Send, ReadCheck,
      ReadReturn (Inr ''post-101'')]"

text \<open>
  A fan-out to the followers 2 and 3 in which both writes run at the same time and
  the one for 3 finishes first; the states before the worker receives the post and
  after it is back at its \<open>select\<close>.
\<close>

definition fanout_schedule :: "event list" where
  "fanout_schedule =
     [WorkerNext 0, WorkerAcquire 0, WorkerNext 0, WorkerAcquire 0, FeedDone 0 1 None,
      WorkerNext 0, FeedDone 0 0 None, WorkerWait 0]"

definition fanout_before :: sys where
  "fanout_before =
     \<lparr>ctx_done = False, jobs = [''post-100''], jobs_cap = 1, jobs_closed = False,
      closes = 0, main = RTop 0,
      workers = [\<lparr>pc = WSelect, inflight = [], calls = []\<rparr>], log = [LogStarting 1 1]\<rparr>"

definition fanout_after :: sys where
  "fanout_after =
     \<lparr>ctx_done = False, jobs = [], jobs_cap = 1, jobs_closed = False,
      closes = 0, main = RTop 0,
      workers = [\<lparr>pc = WSelect, inflight = [],
                  calls = [(''3'', test_post), (''2'', test_post)]\<rparr>],
      log = [LogStarting 1 1, LogDelivered]\<rparr>"

section \<open>Properties\<close>

lemmas step_defs = cancel_def readLoop_select_def readLoop_read_def readLoop_wait_def
  waitWithContext_def readLoop_push_def Run_close_def Run_wait_def processLoop_cancel_def
  processLoop_recv_def processLoop_range_def processLoop_acquire_def processLoop_wait_def
  fanout_done_def set_worker_def

lemmas start_defs = Run_start_def Run_defaults_def test_worker_def test_unmarshal_def
  fanoutLimit_def

lemma set_worker_simps [simp]:
  "workers (set_worker i w s) = (workers s)[i := w]"
  "ctx_done (set_worker i w s) = ctx_done s"
  "jobs (set_worker i w s) = jobs s"
  "jobs_cap (set_worker i w s) = jobs_cap s"
  "jobs_closed (set_worker i w s) = jobs_closed s"
  "closes (set_worker i w s) = closes s"
  "main (set_worker i w s) = main s"
  "log (set_worker i w s) = log s"
  by (simp_all add: set_worker_def)

subsection \<open>The constructor and the defaults of \<open>Run\<close>\<close>

lemma sint_times_10:
  fixes r :: go_int
  assumes "- 922337203685477580 \<le> sint r" "sint r \<le> 922337203685477580"
  shows "sint (r * 10) = 10 * sint r"
proof -
  have "sint (r * 10) = signed_take_bit 63 (sint r * 10)"
    by (simp add: sint_word_ariths)
  also have "\<dots> = sint r * 10"
    using assms by (intro signed_take_bit_int_eq_self) simp_all
  finally show ?thesis by simp
qed

text \<open>
  C9, as stated, at a pool size of \<open>2 ^ 62\<close> and a queue size of 0: the product wraps
  around, and the capacity is not ten times the pool size.
\<close>

theorem C9_New_counterexample:
  "sint (0 :: go_int) \<le> 0
   \<and> workerCount (New 8 () () 4611686018427387904 0) = 4611686018427387904
   \<and> sint (jobQueueSize (New 8 () () 4611686018427387904 0)) = - 9223372036854775808
   \<and> 10 * sint (workerCount (New 8 () () 4611686018427387904 0)) = 46116860184273879040"
  by (simp add: New_def)

text \<open>
  C9, amended. The pool size of the constructed worker is the number of CPUs if
  \<open>workerCount\<close> is not positive and \<open>workerCount\<close> otherwise. The capacity is
  \<open>jobQueueSize\<close> if that is positive, and otherwise the pool size times ten in 64-bit
  wrap-around arithmetic, which is ten times the pool size whenever the pool size is
  at most 922337203685477580.
\<close>

theorem C9_New:
  "workerCount (New n st rd wc jq) = (if sint wc \<le> 0 then n else wc)
   \<and> jobQueueSize (New n st rd wc jq) =
       (if sint jq \<le> 0 then workerCount (New n st rd wc jq) * 10 else jq)
   \<and> (sint jq \<le> 0
        \<and> - 922337203685477580 \<le> sint (workerCount (New n st rd wc jq))
        \<and> sint (workerCount (New n st rd wc jq)) \<le> 922337203685477580
      \<longrightarrow> sint (jobQueueSize (New n st rd wc jq)) = 10 * sint (workerCount (New n st rd wc jq)))"
  by (simp add: New_def Let_def sint_times_10)

theorem C9_New_witness:
  "workerCount (New 8 () () 0 0) = 8 \<and> sint (jobQueueSize (New 8 () () 0 0)) = 80"
  using C9_New [of 8 "()" "()" 0 0] by simp

text \<open>
  C10. A worker whose \<open>workerCount\<close> is not positive when \<open>Run\<close> is called runs with a
  pool of 1, and one whose \<open>jobQueueSize\<close> is not positive with a buffer of 10, whatever
  the pool size; positive fields are kept. So \<open>Run\<close> starts at least one worker and a
  buffer of at least one slot. The constructor puts the number of CPUs in place of a
  pool size that is not positive.
\<close>

theorem C10_Run_defaults:
  "(sint (workerCount w) \<le> 0 \<longrightarrow> workerCount (Run_defaults w) = 1)
   \<and> (0 < sint (workerCount w) \<longrightarrow> workerCount (Run_defaults w) = workerCount w)
   \<and> (sint (jobQueueSize w) \<le> 0 \<longrightarrow> jobQueueSize (Run_defaults w) = 10)
   \<and> (0 < sint (jobQueueSize w) \<longrightarrow> jobQueueSize (Run_defaults w) = jobQueueSize w)
   \<and> 0 < length (workers (Run_start c w))
   \<and> 0 < jobs_cap (Run_start c w)
   \<and> (sint (workerCount w) \<le> 0 \<longrightarrow> length (workers (Run_start c w)) = 1)
   \<and> (sint (jobQueueSize w) \<le> 0 \<longrightarrow> jobs_cap (Run_start c w) = 10)
   \<and> (sint wc \<le> 0 \<longrightarrow> workerCount (New n st rd wc jq) = n)"
  by (simp add: Run_defaults_def Run_start_def New_def Let_def)

theorem C10_Run_defaults_witness:
  "workerCount (Run_defaults \<lparr>store = (), reader = (), workerCount = 0, jobQueueSize = 0\<rparr>) = 1
   \<and> jobQueueSize (Run_defaults \<lparr>store = (), reader = (), workerCount = 0, jobQueueSize = 0\<rparr>) = 10
   \<and> length (workers (Run_start False \<lparr>store = (), reader = (), workerCount = 0, jobQueueSize = 0\<rparr>)) = 1
   \<and> jobs_cap (Run_start False \<lparr>store = (), reader = (), workerCount = 0, jobQueueSize = 0\<rparr>) = 10
   \<and> workerCount (New 8 () () 0 (0 :: go_int)) = 8"
  using C10_Run_defaults
    [of "\<lparr>store = (), reader = (), workerCount = 0, jobQueueSize = 0\<rparr>" False 0 8 "()" "()" 0]
  by simp

subsection \<open>Closing\<close>

text \<open>
  C2, where the code departs from it: when \<open>reader.Close()\<close> answers an error,
  \<open>Close\<close> logs it and returns it, and \<open>store.Close()\<close> is not called. The reader
  is closed in both cases, and the store when the reader closed without error.
\<close>

theorem C2_Close_reader_error:
  "Close (Some err) =
     ([Logged LogClosingReader, ReaderClose, Logged (LogReaderCloseError err)], Some err)
   \<and> StoreClose \<notin> set (fst (Close (Some err)))
   \<and> ReaderClose \<in> set (fst (Close (Some err)))
   \<and> ReaderClose \<in> set (fst (Close None)) \<and> StoreClose \<in> set (fst (Close None))"
  by (simp add: Close_def)

subsection \<open>Back-off\<close>

lemma backoff_le: "backoff r \<le> 1000"
  by (simp add: backoff_def)

lemma backoff_mono: "0 \<le> sint r \<Longrightarrow> sint r \<le> sint r' \<Longrightarrow> backoff r \<le> backoff r'"
  unfolding backoff_def by (auto simp: min_def power_increasing intro: order_trans)

lemma backoff_0: "backoff 0 = 1"
  by (simp add: backoff_def)

lemma backoff_ge: "0 \<le> sint r \<Longrightarrow> 1 \<le> backoff r"
  by (simp add: backoff_def)

lemma worker_step_main:
  "processLoop_cancel i s = Some s' \<Longrightarrow> main s' = main s"
  "processLoop_recv um i gf s = Some s' \<Longrightarrow> main s' = main s"
  "processLoop_range i s = Some s' \<Longrightarrow> main s' = main s"
  "processLoop_acquire i s = Some s' \<Longrightarrow> main s' = main s"
  "processLoop_wait i s = Some s' \<Longrightarrow> main s' = main s"
  "fanout_done i j res s = Some s' \<Longrightarrow> main s' = main s"
  by (auto simp: processLoop_cancel_def processLoop_recv_def processLoop_range_def
      processLoop_acquire_def processLoop_wait_def fanout_done_def Let_def
      split: if_splits list.splits sum.splits worker_pc.splits option.splits)

lemma retry_zero_step:
  assumes "retry_zero (main s)" "step um e s = Some s'" "\<not> is_read_error e"
  shows "retry_zero (main s')"
proof (cases e)
  case (ReadReturn r)
  then show ?thesis
    using assms
    by (auto simp: readLoop_read_def is_read_error_def Let_def
        split: run_pc.splits sum.splits if_splits)
next
  case (WaitReturn c)
  then show ?thesis
    using assms
    by (auto simp: readLoop_wait_def waitWithContext_def
        split: run_pc.splits option.splits wait_choice.splits if_splits)
next
  case (Push ch)
  then show ?thesis
    using assms by (auto simp: readLoop_push_def split: run_pc.splits push_choice.splits if_splits)
qed (use assms in \<open>auto simp: cancel_def readLoop_select_def Run_close_def Run_wait_def worker_step_main
      split: run_pc.splits if_splits\<close>)

lemma retry_zero_run:
  "retry_zero (main s) \<Longrightarrow> run um evs s = Some s' \<Longrightarrow> \<not> list_ex is_read_error evs
   \<Longrightarrow> retry_zero (main s')"
  by (induction evs arbitrary: s) (auto split: option.splits dest: retry_zero_step)

text \<open>
  C4. For a retry count \<open>r\<close> that is not negative the delay is at most 1000, it is
  \<open>2 ^ r\<close> cut off at 1000, it does not decrease when \<open>r\<close> grows, and it is at
  least the delay for 0. A failed read waits for the delay of the current \<open>retry\<close>.
  After a successful read, and whatever happens next short of another failed read,
  the next failed read waits for the delay of 0 again.
\<close>

theorem C4_backoff_bounded_monotone_reset:
  assumes "0 \<le> sint r"
  shows "backoff r \<le> 1000
     \<and> backoff r = min 1000 (2 ^ nat (sint r))
     \<and> (sint r \<le> sint r' \<longrightarrow> backoff r \<le> backoff r')
     \<and> backoff 0 \<le> backoff r
     \<and> (main s = RReading r \<longrightarrow>
          step um (ReadReturn (Inl e)) s
            = Some (s\<lparr>main := RBackoff r (backoff r), log := log s @ [LogReadError e]\<rparr>))
     \<and> (main s = RReading r \<and> step um (ReadReturn (Inr v)) s = Some s1
          \<and> run um evs s1 = Some s2 \<and> \<not> list_ex is_read_error evs
          \<and> step um (ReadReturn (Inl e)) s2 = Some s3
        \<longrightarrow> main s3 = RBackoff 0 (backoff 0))"
proof -
  have "main s3 = RBackoff 0 (backoff 0)"
    if "main s = RReading r" "step um (ReadReturn (Inr v)) s = Some s1"
      "run um evs s1 = Some s2" "\<not> list_ex is_read_error evs"
      "step um (ReadReturn (Inl e)) s2 = Some s3"
  proof -
    have "retry_zero (main s1)"
      using that(1,2) by (auto simp: readLoop_read_def Let_def split: if_splits)
    then have "retry_zero (main s2)"
      using that(3,4) by (rule retry_zero_run)
    then show ?thesis
      using that(5) by (auto simp: readLoop_read_def split: run_pc.splits)
  qed
  moreover have "backoff 0 \<le> backoff r"
    using assms backoff_ge [of r] by (simp add: backoff_0)
  ultimately show ?thesis
    using assms backoff_mono [of r r']
    by (auto simp: backoff_le readLoop_read_def) (simp add: backoff_def)
qed

theorem C4_backoff_bounded_monotone_reset_witness:
  "backoff 3 = 8 \<and> backoff 5 = 32 \<and> backoff 10 = 1000 \<and> backoff 0 = 1
   \<and> map_option main
       (run test_unmarshal
          [ReadReturn (Inr ''post-100''), Push Send, ReadCheck, ReadReturn (Inl (GoError ''EOF''))]
          \<lparr>ctx_done = False, jobs = [], jobs_cap = 1, jobs_closed = False, closes = 0,
           main = RReading 3,
           workers = [\<lparr>pc = WSelect, inflight = [], calls = []\<rparr>], log = []\<rparr>)
     = Some (RBackoff 0 1)"
proof -
  let ?s = "\<lparr>ctx_done = False, jobs = [], jobs_cap = 1, jobs_closed = False, closes = 0,
           main = RReading 3,
           workers = [\<lparr>pc = WSelect, inflight = [], calls = []\<rparr>], log = []\<rparr>"
  let ?s1 = "?s\<lparr>main := RPush 0 ''post-100''\<rparr>"
  let ?s2 = "?s\<lparr>jobs := [''post-100''], main := RReading 0\<rparr>"
  let ?s3 = "?s\<lparr>jobs := [''post-100''], main := RBackoff 0 1, log := [LogReadError (GoError ''EOF'')]\<rparr>"
  have h0: "0 \<le> sint (3 :: go_int)" by simp
  have h1: "step test_unmarshal (ReadReturn (Inr ''post-100'')) ?s = Some ?s1"
    by (simp add: readLoop_read_def)
  have h2: "run test_unmarshal [Push Send, ReadCheck] ?s1 = Some ?s2"
    by (simp add: readLoop_push_def readLoop_select_def)
  have h3: "\<not> list_ex is_read_error [Push Send, ReadCheck]"
    by (simp add: is_read_error_def)
  have h4: "step test_unmarshal (ReadReturn (Inl (GoError ''EOF''))) ?s2 = Some ?s3"
    by (simp add: readLoop_read_def backoff_def)
  have "main ?s3 = RBackoff 0 (backoff 0)"
    using C4_backoff_bounded_monotone_reset [OF h0, of 5 ?s test_unmarshal "GoError ''EOF''"
        "''post-100''" ?s1 "[Push Send, ReadCheck]" ?s2 ?s3] h1 h2 h3 h4
    by simp
  moreover have "backoff 3 \<le> backoff 5"
    using C4_backoff_bounded_monotone_reset [OF h0, of 5 ?s test_unmarshal "GoError ''EOF''"
        "''post-100''" ?s1 "[Push Send, ReadCheck]" ?s2 ?s3]
    by simp
  ultimately show ?thesis
    by (simp add: backoff_def readLoop_read_def readLoop_push_def readLoop_select_def)
qed


subsection \<open>The order of shutdown\<close>

lemma run_inv_start: "run_inv (Run_start c w)"
  by (simp add: run_inv_def Run_start_def Let_def)

lemma list_all_returned_update:
  "list_all (\<lambda>w. pc w = WReturned) ws \<Longrightarrow> pc w = WReturned
   \<Longrightarrow> list_all (\<lambda>w. pc w = WReturned) (ws[i := w])"
  by (cases "i < length ws") (auto simp: list_all_length nth_list_update)

lemma list_all_returned_nth:
  "list_all (\<lambda>w. pc w = WReturned) ws \<Longrightarrow> i < length ws \<Longrightarrow> pc (ws ! i) = WReturned"
  by (simp add: list_all_length)

lemma run_inv_cancel: "run_inv s \<Longrightarrow> cancel s = Some s' \<Longrightarrow> run_inv s'"
  by (auto simp: run_inv_def cancel_def)

lemma run_inv_readLoop_select: "run_inv s \<Longrightarrow> readLoop_select s = Some s' \<Longrightarrow> run_inv s'"
  by (auto simp: run_inv_def readLoop_select_def split: run_pc.splits if_splits)

lemma run_inv_readLoop_read: "run_inv s \<Longrightarrow> readLoop_read r s = Some s' \<Longrightarrow> run_inv s'"
  by (auto simp: run_inv_def readLoop_read_def Let_def split: run_pc.splits sum.splits if_splits)

lemma run_inv_readLoop_wait: "run_inv s \<Longrightarrow> readLoop_wait c s = Some s' \<Longrightarrow> run_inv s'"
  by (auto simp: run_inv_def readLoop_wait_def waitWithContext_def
      split: run_pc.splits option.splits wait_choice.splits if_splits)

lemma run_inv_readLoop_push: "run_inv s \<Longrightarrow> readLoop_push ch s = Some s' \<Longrightarrow> run_inv s'"
  by (auto simp: run_inv_def readLoop_push_def split: run_pc.splits push_choice.splits if_splits)

lemma run_inv_Run_close: "run_inv s \<Longrightarrow> Run_close s = Some s' \<Longrightarrow> run_inv s'"
  by (auto simp: run_inv_def Run_close_def split: run_pc.splits if_splits)

lemma run_inv_Run_wait: "run_inv s \<Longrightarrow> Run_wait s = Some s' \<Longrightarrow> run_inv s'"
  by (auto simp: run_inv_def Run_wait_def split: run_pc.splits if_splits)

text \<open>A step of a worker leaves the shared part alone, and a worker that has returned stays so.\<close>

lemma run_inv_frame:
  assumes "run_inv s"
    and "main s' = main s" "jobs_closed s' = jobs_closed s" "closes s' = closes s"
      "ctx_done s' = ctx_done s"
    and "list_all (\<lambda>w. pc w = WReturned) (workers s)
         \<Longrightarrow> list_all (\<lambda>w. pc w = WReturned) (workers s')"
  shows "run_inv s'"
  using assms unfolding run_inv_def by auto

lemma run_inv_processLoop_cancel: "run_inv s \<Longrightarrow> processLoop_cancel i s = Some s' \<Longrightarrow> run_inv s'"
  by (erule run_inv_frame)
     (auto simp: processLoop_cancel_def list_all_returned_update split: if_splits)

lemma run_inv_processLoop_recv: "run_inv s \<Longrightarrow> processLoop_recv um i gf s = Some s' \<Longrightarrow> run_inv s'"
  by (erule run_inv_frame)
     (auto simp: processLoop_recv_def list_all_returned_update
       dest: list_all_returned_nth split: if_splits list.splits sum.splits)

lemma run_inv_processLoop_range: "run_inv s \<Longrightarrow> processLoop_range i s = Some s' \<Longrightarrow> run_inv s'"
  by (erule run_inv_frame)
     (auto simp: processLoop_range_def list_all_returned_update
       dest: list_all_returned_nth split: if_splits list.splits worker_pc.splits)

lemma run_inv_processLoop_acquire: "run_inv s \<Longrightarrow> processLoop_acquire i s = Some s' \<Longrightarrow> run_inv s'"
  by (erule run_inv_frame)
     (auto simp: processLoop_acquire_def
       dest: list_all_returned_nth split: if_splits worker_pc.splits)

lemma run_inv_processLoop_wait: "run_inv s \<Longrightarrow> processLoop_wait i s = Some s' \<Longrightarrow> run_inv s'"
  by (erule run_inv_frame)
     (auto simp: processLoop_wait_def
       dest: list_all_returned_nth split: if_splits worker_pc.splits)

lemma run_inv_fanout_done: "run_inv s \<Longrightarrow> fanout_done i j res s = Some s' \<Longrightarrow> run_inv s'"
  by (erule run_inv_frame)
     (auto simp: fanout_done_def Let_def list_all_returned_nth
       intro!: list_all_returned_update split: if_splits option.splits)

lemma run_inv_step: "run_inv s \<Longrightarrow> step um e s = Some s' \<Longrightarrow> run_inv s'"
  by (cases e)
     (auto intro: run_inv_cancel run_inv_readLoop_select run_inv_readLoop_read run_inv_readLoop_wait
       run_inv_readLoop_push run_inv_Run_close run_inv_Run_wait run_inv_processLoop_cancel run_inv_processLoop_recv
       run_inv_processLoop_range run_inv_processLoop_acquire run_inv_processLoop_wait run_inv_fanout_done)

lemma run_inv_run: "run_inv s \<Longrightarrow> run um evs s = Some s' \<Longrightarrow> run_inv s'"
  by (induction evs arbitrary: s) (auto split: option.splits dest: run_inv_step)

lemma processLoop_recv_returned:
  assumes "processLoop_recv um i gf s = Some s'" "pc (workers s' ! i) = WReturned"
  shows "jobs s = [] \<and> jobs_closed s"
  using assms
  by (auto simp: processLoop_recv_def split: if_splits list.splits sum.splits)

text \<open>
  C3, as stated, on \<open>lost_schedule\<close>: \<open>Run\<close> has returned and the channel is closed,
  the worker has returned without a single call, and the payload is still in the buffer.
\<close>

theorem C3_counterexample:
  "map_option main (run test_unmarshal lost_schedule (Run_start False test_worker)) = Some RDone
   \<and> map_option jobs_closed (run test_unmarshal lost_schedule (Run_start False test_worker))
       = Some True
   \<and> map_option jobs (run test_unmarshal lost_schedule (Run_start False test_worker))
       = Some [''post-100'']
   \<and> map_option workers (run test_unmarshal lost_schedule (Run_start False test_worker))
       = Some [\<lparr>pc = WReturned, inflight = [], calls = []\<rparr>]"
  by (simp add: lost_schedule_def step_defs start_defs Let_def)

text \<open>
  C3, amended. In every state of every run of \<open>Run\<close> the channel has been closed at
  most once; it is closed only when \<open>readLoop\<close> has returned, and no send is possible
  then; nothing panics; and when \<open>Run\<close> has returned the channel has been closed
  exactly once and every worker has returned. A worker returns from the receive branch
  of its \<open>select\<close> only when the channel is closed and the buffer is empty. (It may
  also return from the cancellation branch, with payloads left in the buffer.)
\<close>

theorem C3_close_once_then_join:
  assumes "run um evs (Run_start c w) = Some s"
  shows "closes s \<le> 1
     \<and> (jobs_closed s \<longrightarrow>
          closes s = 1 \<and> (main s = RJoin \<or> main s = RDone) \<and> step um (Push ch) s = None)
     \<and> main s \<noteq> RPanic
     \<and> (main s = RDone \<longrightarrow> closes s = 1 \<and> list_all (\<lambda>w. pc w = WReturned) (workers s))
     \<and> (step um (WorkerRecv i gf) s = Some s' \<and> pc (workers s' ! i) = WReturned
          \<longrightarrow> jobs s = [] \<and> jobs_closed s)"
proof -
  have inv: "run_inv s"
    using run_inv_run [OF run_inv_start assms] .
  have "step um (Push ch) s = None" if "main s = RJoin \<or> main s = RDone"
    using that by (auto simp: readLoop_push_def)
  moreover have "jobs s = [] \<and> jobs_closed s"
    if "step um (WorkerRecv i gf) s = Some s'" "pc (workers s' ! i) = WReturned"
    using that processLoop_recv_returned by simp
  ultimately show ?thesis
    using inv unfolding run_inv_def by auto
qed

theorem C3_close_once_then_join_witness:
  "map_option closes (run test_unmarshal lost_schedule (Run_start False test_worker)) = Some 1
   \<and> map_option main (run test_unmarshal lost_schedule (Run_start False test_worker)) = Some RDone"
proof -
  have r: "run test_unmarshal lost_schedule (Run_start False test_worker) =
    Some \<lparr>ctx_done = True, jobs = [''post-100''], jobs_cap = 1, jobs_closed = True,
     closes = 1, main = RDone,
     workers = [\<lparr>pc = WReturned, inflight = [], calls = []\<rparr>],
     log = [LogStarting 1 1, LogAllStopped]\<rparr>"
    by (simp add: lost_schedule_def step_defs start_defs Let_def)
  show ?thesis
    using C3_close_once_then_join [OF r] r by simp
qed


subsection \<open>A full buffer\<close>

text \<open>
  C5. \<open>readLoop\<close> holds a payload \<open>v\<close> to push, the buffer is full and the context is
  not cancelled: neither the send nor the cancellation branch can be taken. When the
  timer fires, the buffer is as it was, the warning is logged and the loop is back at
  its head; the state reached is the same whatever the payload was, so the payload is
  gone. From there the loop calls \<open>ReadMessage\<close> again.
\<close>

theorem C5_full_buffer_drops_payload:
  assumes "run um evs (Run_start c w) = Some s"
    and "main s = RPush retry v"
    and "jobs_cap s \<le> length (jobs s)"
    and "\<not> ctx_done s"
  shows "step um (Push Send) s = None
     \<and> step um (Push PushCtxDone) s = None
     \<and> step um (Push Timeout) s = Some (s\<lparr>main := RTop retry, log := log s @ [LogQueueFull]\<rparr>)
     \<and> step um (Push Timeout) (s\<lparr>main := RPush retry v'\<rparr>) = step um (Push Timeout) s
     \<and> step um ReadCheck (s\<lparr>main := RTop retry, log := log s @ [LogQueueFull]\<rparr>)
         = Some (s\<lparr>main := RReading retry, log := log s @ [LogQueueFull]\<rparr>)"
proof -
  have "run_inv s"
    using run_inv_run [OF run_inv_start assms(1)] .
  then have "\<not> jobs_closed s"
    using assms(2) by (simp add: run_inv_def)
  then show ?thesis
    using assms(2-4) by (simp add: readLoop_push_def readLoop_select_def)
qed

theorem C5_full_buffer_drops_payload_witness:
  "step test_unmarshal (Push Send)
     \<lparr>ctx_done = False, jobs = [''post-100''], jobs_cap = 1, jobs_closed = False, closes = 0,
      main = RPush 0 ''post-101'',
      workers = [\<lparr>pc = WSelect, inflight = [], calls = []\<rparr>], log = [LogStarting 1 1]\<rparr> = None
   \<and> step test_unmarshal (Push Timeout)
     \<lparr>ctx_done = False, jobs = [''post-100''], jobs_cap = 1, jobs_closed = False, closes = 0,
      main = RPush 0 ''post-101'',
      workers = [\<lparr>pc = WSelect, inflight = [], calls = []\<rparr>], log = [LogStarting 1 1]\<rparr>
     = Some \<lparr>ctx_done = False, jobs = [''post-100''], jobs_cap = 1, jobs_closed = False,
      closes = 0, main = RTop 0,
      workers = [\<lparr>pc = WSelect, inflight = [], calls = []\<rparr>],
      log = [LogStarting 1 1, LogQueueFull]\<rparr>"
proof -
  have r: "run test_unmarshal full_schedule (Run_start False test_worker) =
    Some \<lparr>ctx_done = False, jobs = [''post-100''], jobs_cap = 1, jobs_closed = False,
      closes = 0, main = RPush 0 ''post-101'',
      workers = [\<lparr>pc = WSelect, inflight = [], calls = []\<rparr>], log = [LogStarting 1 1]\<rparr>"
    by (simp add: full_schedule_def step_defs start_defs Let_def)
  show ?thesis
    using C5_full_buffer_drops_payload [OF r, of 0 "''post-101''" "''post-101''"] by simp
qed


subsection \<open>Payloads and posts that are skipped\<close>

text \<open>
  C6. A worker at its \<open>select\<close> receives a payload that does not decode: the payload
  is taken from the buffer and the error is logged; no worker changes, so no write is
  started or made; the worker is still at its \<open>select\<close> and can receive the next
  payload if there is one.
\<close>

theorem C6_decode_failure_skipped:
  assumes "i < length (workers s)"
    and "pc (workers s ! i) = WSelect"
    and "jobs s = d # rest"
    and "um d = Inl err"
  shows "step um (WorkerRecv i gf) s
           = Some (s\<lparr>jobs := rest, log := log s @ [LogInvalidJSON err]\<rparr>)
     \<and> workers (s\<lparr>jobs := rest, log := log s @ [LogInvalidJSON err]\<rparr>) = workers s
     \<and> pc (workers (s\<lparr>jobs := rest, log := log s @ [LogInvalidJSON err]\<rparr>) ! i) = WSelect
     \<and> (rest = [] \<or>
          step um (WorkerRecv i gf2) (s\<lparr>jobs := rest, log := log s @ [LogInvalidJSON err]\<rparr>)
            \<noteq> None)"
  using assms
  by (cases rest) (auto simp: processLoop_recv_def split: sum.splits)

theorem C6_decode_failure_skipped_witness:
  "step test_unmarshal (WorkerRecv 0 (Inr [''2'']))
     \<lparr>ctx_done = False, jobs = [''{invalid-json}'', ''post-100''], jobs_cap = 2,
      jobs_closed = False, closes = 0, main = RTop 0,
      workers = [\<lparr>pc = WSelect, inflight = [], calls = []\<rparr>], log = []\<rparr>
   = Some \<lparr>ctx_done = False, jobs = [''post-100''], jobs_cap = 2,
      jobs_closed = False, closes = 0, main = RTop 0,
      workers = [\<lparr>pc = WSelect, inflight = [], calls = []\<rparr>],
      log = [LogInvalidJSON (GoError ''invalid character'')]\<rparr>"
  using C6_decode_failure_skipped [of 0
      "\<lparr>ctx_done = False, jobs = [''{invalid-json}'', ''post-100''], jobs_cap = 2,
        jobs_closed = False, closes = 0, main = RTop 0,
        workers = [\<lparr>pc = WSelect, inflight = [], calls = []\<rparr>], log = []\<rparr>"
      "''{invalid-json}''" "[''post-100'']" test_unmarshal "GoError ''invalid character''"
      "Inr [''2'']" "Inr [''2'']"]
  by (simp add: test_unmarshal_def)

text \<open>
  C7. A worker at its \<open>select\<close> receives a payload that decodes to a post, and
  \<open>GetFollowers\<close> answers an error: the payload is taken from the buffer and not put
  back, the error is logged; no worker changes, so no write is started or made; the
  worker is still at its \<open>select\<close> and can receive the next payload if there is one.
\<close>

theorem C7_followers_error_skipped:
  assumes "i < length (workers s)"
    and "pc (workers s ! i) = WSelect"
    and "jobs s = d # rest"
    and "um d = Inr post"
  shows "step um (WorkerRecv i (Inl err)) s
           = Some (s\<lparr>jobs := rest, log := log s @ [LogFollowersError err]\<rparr>)
     \<and> workers (s\<lparr>jobs := rest, log := log s @ [LogFollowersError err]\<rparr>) = workers s
     \<and> pc (workers (s\<lparr>jobs := rest, log := log s @ [LogFollowersError err]\<rparr>) ! i) = WSelect
     \<and> (rest = [] \<or>
          step um (WorkerRecv i gf2) (s\<lparr>jobs := rest, log := log s @ [LogFollowersError err]\<rparr>)
            \<noteq> None)"
  using assms
  by (cases rest) (auto simp: processLoop_recv_def split: sum.splits)

theorem C7_followers_error_skipped_witness:
  "step test_unmarshal (WorkerRecv 0 (Inl (GoError ''mock get followers error'')))
     \<lparr>ctx_done = False, jobs = [''post-100'', ''post-100''], jobs_cap = 2,
      jobs_closed = False, closes = 0, main = RTop 0,
      workers = [\<lparr>pc = WSelect, inflight = [], calls = []\<rparr>], log = []\<rparr>
   = Some \<lparr>ctx_done = False, jobs = [''post-100''], jobs_cap = 2,
      jobs_closed = False, closes = 0, main = RTop 0,
      workers = [\<lparr>pc = WSelect, inflight = [], calls = []\<rparr>],
      log = [LogFollowersError (GoError ''mock get followers error'')]\<rparr>"
  using C7_followers_error_skipped [of 0
      "\<lparr>ctx_done = False, jobs = [''post-100'', ''post-100''], jobs_cap = 2,
        jobs_closed = False, closes = 0, main = RTop 0,
        workers = [\<lparr>pc = WSelect, inflight = [], calls = []\<rparr>], log = []\<rparr>"
      "''post-100''" "[''post-100'']" test_unmarshal test_post
      "GoError ''mock get followers error''" "Inr [''2'']"]
  by (simp add: test_unmarshal_def)


subsection \<open>The fan-out\<close>

text \<open>
  C8, where the code departs from it, on \<open>orphan_schedule\<close>: the worker has returned
  from \<open>processLoop\<close> and \<open>Run\<close> has returned, while the write for follower 2, started
  before the cancellation, has not finished.
\<close>

theorem C8_returns_with_write_in_flight:
  "map_option main (run test_unmarshal orphan_schedule (Run_start False test_worker)) = Some RDone
   \<and> map_option workers (run test_unmarshal orphan_schedule (Run_start False test_worker))
       = Some [\<lparr>pc = WReturned, inflight = [(''2'', test_post)], calls = []\<rparr>]"
  by (simp add: orphan_schedule_def step_defs start_defs Let_def)


lemma list_all_update: "list_all Q ws \<Longrightarrow> Q w \<Longrightarrow> list_all Q (ws[i := w])"
  by (cases "i < length ws") (auto simp: list_all_length nth_list_update)

lemma idle_inv_start: "idle_inv (Run_start c w)"
  by (simp add: idle_inv_def Run_start_def Let_def list_all_length)

lemma idle_inv_frame:
  "idle_inv s \<Longrightarrow> workers s' = workers s \<Longrightarrow> idle_inv s'"
  by (simp add: idle_inv_def)

lemma main_step_frame:
  "cancel s = Some s' \<Longrightarrow> workers s' = workers s"
  "readLoop_select s = Some s' \<Longrightarrow> workers s' = workers s \<and> ctx_done s' = ctx_done s"
  "readLoop_read r s = Some s' \<Longrightarrow> workers s' = workers s \<and> ctx_done s' = ctx_done s"
  "readLoop_wait c s = Some s' \<Longrightarrow> workers s' = workers s \<and> ctx_done s' = ctx_done s"
  "readLoop_push ch s = Some s' \<Longrightarrow> workers s' = workers s \<and> ctx_done s' = ctx_done s"
  "Run_close s = Some s' \<Longrightarrow> workers s' = workers s \<and> ctx_done s' = ctx_done s"
  "Run_wait s = Some s' \<Longrightarrow> workers s' = workers s \<and> ctx_done s' = ctx_done s"
  by (auto simp: cancel_def readLoop_select_def readLoop_read_def readLoop_wait_def waitWithContext_def
      readLoop_push_def Run_close_def Run_wait_def Let_def
      split: run_pc.splits sum.splits option.splits wait_choice.splits push_choice.splits
        if_splits)

lemma idle_inv_worker_step:
  assumes "idle_inv s"
  shows "processLoop_cancel i s = Some s' \<Longrightarrow> idle_inv s'"
    and "processLoop_recv um i gf s = Some s' \<Longrightarrow> idle_inv s'"
    and "processLoop_range i s = Some s' \<Longrightarrow> idle_inv s'"
    and "processLoop_acquire i s = Some s' \<Longrightarrow> idle_inv s'"
    and "processLoop_wait i s = Some s' \<Longrightarrow> idle_inv s'"
  using assms
  by (auto simp: idle_inv_def processLoop_cancel_def processLoop_recv_def processLoop_range_def
      processLoop_acquire_def processLoop_wait_def
      intro!: list_all_update
      split: if_splits list.splits sum.splits worker_pc.splits)

lemma idle_inv_fanout_done:
  assumes "idle_inv s" "fanout_done i j res s = Some s'"
  shows "idle_inv s'"
proof -
  from assms(2) have i: "i < length (workers s)" and j: "j < length (inflight (workers s ! i))"
    by (auto simp: fanout_done_def split: if_splits)
  from assms(1) i j have "pc (workers s ! i) \<noteq> WSelect"
    by (auto simp: idle_inv_def list_all_length)
  then show ?thesis
    using assms i j
    by (auto simp: idle_inv_def fanout_done_def Let_def intro!: list_all_update
        split: option.splits)
qed

lemma idle_inv_step: "idle_inv s \<Longrightarrow> step um e s = Some s' \<Longrightarrow> idle_inv s'"
  by (cases e)
     (auto intro: idle_inv_worker_step idle_inv_fanout_done
       dest: main_step_frame idle_inv_frame)

lemma idle_inv_run: "idle_inv s \<Longrightarrow> run um evs s = Some s' \<Longrightarrow> idle_inv s'"
  by (induction evs arbitrary: s) (auto split: option.splits dest: idle_inv_step)

text \<open>A step of another worker leaves worker \<open>i\<close> alone.\<close>

lemma worker_step_other:
  assumes "k \<noteq> i"
  shows "processLoop_cancel k s = Some s' \<Longrightarrow>
           workers s' ! i = workers s ! i \<and> length (workers s') = length (workers s)
           \<and> ctx_done s' = ctx_done s"
    and "processLoop_recv um k gf s = Some s' \<Longrightarrow>
           workers s' ! i = workers s ! i \<and> length (workers s') = length (workers s)
           \<and> ctx_done s' = ctx_done s"
    and "processLoop_range k s = Some s' \<Longrightarrow>
           workers s' ! i = workers s ! i \<and> length (workers s') = length (workers s)
           \<and> ctx_done s' = ctx_done s"
    and "processLoop_acquire k s = Some s' \<Longrightarrow>
           workers s' ! i = workers s ! i \<and> length (workers s') = length (workers s)
           \<and> ctx_done s' = ctx_done s"
    and "processLoop_wait k s = Some s' \<Longrightarrow>
           workers s' ! i = workers s ! i \<and> length (workers s') = length (workers s)
           \<and> ctx_done s' = ctx_done s"
    and "fanout_done k j res s = Some s' \<Longrightarrow>
           workers s' ! i = workers s ! i \<and> length (workers s') = length (workers s)
           \<and> ctx_done s' = ctx_done s"
  using assms
  by (auto simp: processLoop_cancel_def processLoop_recv_def processLoop_range_def
      processLoop_acquire_def processLoop_wait_def fanout_done_def Let_def
      split: if_splits list.splits sum.splits worker_pc.splits option.splits)

lemma mset_remove_nth:
  "j < length xs \<Longrightarrow> mset (take j xs @ drop (Suc j) xs) + {#xs ! j#} = mset xs"
proof -
  assume "j < length xs"
  then have "xs = take j xs @ xs ! j # drop (Suc j) xs"
    by (rule id_take_nth_drop)
  then have "mset xs = mset (take j xs @ xs ! j # drop (Suc j) xs)"
    by simp
  then show ?thesis by simp
qed

text \<open>The steps of worker \<open>i\<close> itself, with no cancellation.\<close>

lemma fan_inv_processLoop_range:
  assumes "fan_inv P F base (workers s ! i)" "\<not> ctx_done s" "processLoop_range i s = Some s'"
  shows "fan_inv P F base (workers s' ! i)"
  using assms
  by (auto simp: fan_inv_def fan_state_def processLoop_range_def
      split: if_splits list.splits worker_pc.splits)

lemma fan_inv_processLoop_acquire:
  assumes "fan_inv P F base (workers s ! i)" "processLoop_acquire i s = Some s'"
  shows "fan_inv P F base (workers s' ! i)"
  using assms
  by (auto simp: fan_inv_def fan_state_def processLoop_acquire_def ac_simps
      split: if_splits worker_pc.splits)

lemma fan_inv_processLoop_wait:
  assumes "fan_inv P F base (workers s ! i)" "processLoop_wait i s = Some s'"
  shows "fan_inv P F base (workers s' ! i)"
  using assms
  by (auto simp: fan_inv_def fan_state_def processLoop_wait_def
      split: if_splits worker_pc.splits)

lemma fan_inv_processLoop_cancel:
  assumes "fan_inv P F base (workers s ! i)" "\<not> ctx_done s" "processLoop_cancel i s = Some s'"
  shows "fan_inv P F base (workers s' ! i)"
  using assms by (auto simp: processLoop_cancel_def split: if_splits)

lemma fan_inv_fanout_done:
  assumes "fan_inv P F base (workers s ! i)" "fanout_done i j res s = Some s'"
  shows "fan_inv P F base (workers s' ! i)"
proof -
  let ?w = "workers s ! i"
  from assms(2) have i: "i < length (workers s)" and j: "j < length (inflight ?w)"
    by (auto simp: fanout_done_def split: if_splits)
  let ?w1 = "?w\<lparr>inflight := take j (inflight ?w) @ drop (Suc j) (inflight ?w),
                 calls := calls ?w @ [inflight ?w ! j]\<rparr>"
  have w': "workers s' ! i = ?w1"
    using assms(2) i j by (auto simp: fanout_done_def Let_def split: option.splits)
  from assms(1) have base: "take (length base) (calls ?w) = base"
    and idle: "pc ?w \<noteq> WSelect \<or> inflight ?w = []"
    and st: "fan_state P (mset (map (\<lambda>u. (u, P)) F))
       (mset (drop (length base) (calls ?w)) + mset (inflight ?w)) (pc ?w)"
    by (simp_all add: fan_inv_def)
  have "length base = length (take (length base) (calls ?w))"
    using base by simp
  then have len: "length base \<le> length (calls ?w)"
    by simp
  have started: "mset (drop (length base) (calls ?w1)) + mset (inflight ?w1)
      = mset (drop (length base) (calls ?w)) + mset (inflight ?w)"
    using len mset_remove_nth [OF j] by (simp add: ac_simps)
  have "take (length base) (calls ?w1) = base"
    using base len by simp
  moreover have "pc ?w1 \<noteq> WSelect"
    using idle j by auto
  moreover have "fan_state P (mset (map (\<lambda>u. (u, P)) F))
       (mset (drop (length base) (calls ?w1)) + mset (inflight ?w1)) (pc ?w1)"
    unfolding started using st by simp
  ultimately show ?thesis
    unfolding w' fan_inv_def by blast
qed

lemma fan_inv_step:
  assumes "fan_inv P F base (workers s ! i)" "i < length (workers s)" "\<not> ctx_done s"
    and "step um e s = Some s'" "e \<noteq> Cancel" "\<not> is_recv_of i e"
  shows "fan_inv P F base (workers s' ! i) \<and> i < length (workers s') \<and> \<not> ctx_done s'"
proof -
  have len: "length (workers s') = length (workers s) \<and> ctx_done s' = ctx_done s"
    using assms(4,5)
    by (cases e)
       (auto simp: processLoop_cancel_def processLoop_recv_def processLoop_range_def
         processLoop_acquire_def processLoop_wait_def fanout_done_def Let_def
         dest: main_step_frame
         split: if_splits list.splits sum.splits worker_pc.splits option.splits)
  have "fan_inv P F base (workers s' ! i)"
  proof (cases e)
    case (WorkerCancel k)
    then show ?thesis
      using assms fan_inv_processLoop_cancel [of P F base s i s'] worker_step_other(1) [of k i s s']
      by (cases "k = i") auto
  next
    case (WorkerRecv k gf)
    then show ?thesis
      using assms worker_step_other(2) [of k i um gf s s']
      by (cases "k = i") (auto simp: is_recv_of_def)
  next
    case (WorkerNext k)
    then show ?thesis
      using assms fan_inv_processLoop_range [of P F base s i s'] worker_step_other(3) [of k i s s']
      by (cases "k = i") auto
  next
    case (WorkerAcquire k)
    then show ?thesis
      using assms fan_inv_processLoop_acquire [of P F base s i s'] worker_step_other(4) [of k i s s']
      by (cases "k = i") auto
  next
    case (WorkerWait k)
    then show ?thesis
      using assms fan_inv_processLoop_wait [of P F base s i s'] worker_step_other(5) [of k i s s']
      by (cases "k = i") auto
  next
    case (FeedDone k j res)
    then show ?thesis
      using assms fan_inv_fanout_done [of P F base s i j res s']
        worker_step_other(6) [of k i j res s s']
      by (cases "k = i") auto
  qed (use assms in \<open>auto dest: main_step_frame\<close>)
  with len assms(2,3) show ?thesis by simp
qed

lemma fan_inv_run:
  assumes "run um evs s = Some s'"
    and "fan_inv P F base (workers s ! i)" "i < length (workers s)" "\<not> ctx_done s"
    and "Cancel \<notin> set evs" "\<not> list_ex (is_recv_of i) evs"
  shows "fan_inv P F base (workers s' ! i)"
  using assms
proof (induction evs arbitrary: s)
  case Nil
  then show ?case by simp
next
  case (Cons e evs)
  from Cons.prems(1) obtain s1 where s1: "step um e s = Some s1" "run um evs s1 = Some s'"
    by (auto split: option.splits)
  have "fan_inv P F base (workers s1 ! i) \<and> i < length (workers s1) \<and> \<not> ctx_done s1"
    using fan_inv_step [OF Cons.prems(2-4) s1(1)] Cons.prems(5,6) by auto
  then show ?case
    using Cons.IH [OF s1(2)] Cons.prems(5,6) by auto
qed

text \<open>With no cancellation there is a schedule on which the fan-out comes to its end.\<close>

lemma run_append:
  "run um (xs @ ys) s = (case run um xs s of None \<Rightarrow> None | Some s1 \<Rightarrow> run um ys s1)"
  by (induction xs arbitrary: s) (auto split: option.splits)

lemma fanout_one_turn:
  assumes "i < length (workers s)" "pc (workers s ! i) = WRange P (u # us)"
    and "inflight (workers s ! i) = []" "\<not> ctx_done s"
  shows "run um [WorkerNext i, WorkerAcquire i, FeedDone i 0 None] s
    = Some (set_worker i
        ((workers s ! i)\<lparr>pc := WRange P us, inflight := [],
           calls := calls (workers s ! i) @ [(u, P)]\<rparr>) s)"
  using assms
  by (simp add: processLoop_range_def processLoop_acquire_def fanout_done_def fanoutLimit_def set_worker_def)

lemma fanout_in_turn_completes:
  assumes "i < length (workers s)" "pc (workers s ! i) = WRange P us"
    and "inflight (workers s ! i) = []" "\<not> ctx_done s"
  shows "\<exists>s'. run um (fanout_in_turn i us) s = Some s'
     \<and> pc (workers s' ! i) = WSelect
     \<and> calls (workers s' ! i) = calls (workers s ! i) @ map (\<lambda>u. (u, P)) us"
  using assms
proof (induction us arbitrary: s)
  case Nil
  then show ?case
    by (simp add: fanout_in_turn_def processLoop_range_def processLoop_wait_def)
next
  case (Cons u us)
  let ?s1 = "set_worker i
        ((workers s ! i)\<lparr>pc := WRange P us, inflight := [],
           calls := calls (workers s ! i) @ [(u, P)]\<rparr>) s"
  have one: "run um [WorkerNext i, WorkerAcquire i, FeedDone i 0 None] s = Some ?s1"
    using Cons.prems by (rule fanout_one_turn)
  have "i < length (workers ?s1)" "pc (workers ?s1 ! i) = WRange P us"
    "inflight (workers ?s1 ! i) = []" "\<not> ctx_done ?s1"
    using Cons.prems by simp_all
  from Cons.IH [OF this] obtain s' where s':
    "run um (fanout_in_turn i us) ?s1 = Some s'" "pc (workers s' ! i) = WSelect"
    "calls (workers s' ! i) = calls (workers ?s1 ! i) @ map (\<lambda>u. (u, P)) us"
    by blast
  have "fanout_in_turn i (u # us)
      = [WorkerNext i, WorkerAcquire i, FeedDone i 0 None] @ fanout_in_turn i us"
    by (simp add: fanout_in_turn_def)
  then have "run um (fanout_in_turn i (u # us)) s = Some s'"
    using one s'(1) by (simp only: run_append option.case)
  moreover have "calls (workers s' ! i) = calls (workers s ! i) @ map (\<lambda>u. (u, P)) (u # us)"
    using s'(3) Cons.prems(1) by simp
  ultimately show ?case
    using s'(2) by blast
qed

text \<open>
  C1. In a state of a run of \<open>Run\<close> in which the context is not cancelled, worker \<open>i\<close>
  is at its \<open>select\<close> and the next payload decodes to the post \<open>P\<close>, let
  \<open>GetFollowers\<close> answer the followers \<open>F\<close>, all different. Then the fan-out can come
  to its end; and on every schedule without cancellation on which it does (the worker
  is back at its \<open>select\<close> and has received nothing else), whatever the other
  goroutines do and whatever \<open>AddToFeed\<close> answers, the \<open>AddToFeed\<close> calls the worker
  has added to those made before are as many as there are followers, all different,
  and they are exactly the pairs of a follower in \<open>F\<close> with \<open>P\<close>; no write is still
  running.
\<close>

theorem C1_fanout_one_call_per_follower:
  assumes "run um evs0 (Run_start c w) = Some s"
    and "i < length (workers s)"
    and "pc (workers s ! i) = WSelect"
    and "jobs s = d # rest"
    and "um d = Inr P"
    and "distinct F"
    and "\<not> ctx_done s"
  shows "(\<exists>s2. run um (WorkerRecv i (Inr F) # fanout_in_turn i F) s = Some s2
            \<and> pc (workers s2 ! i) = WSelect)
     \<and> (run um (WorkerRecv i (Inr F) # evs) s = Some s'
          \<and> Cancel \<notin> set evs \<and> \<not> list_ex (is_recv_of i) evs
          \<and> pc (workers s' ! i) = WSelect
        \<longrightarrow> take (length (calls (workers s ! i))) (calls (workers s' ! i))
              = calls (workers s ! i)
            \<and> length (drop (length (calls (workers s ! i))) (calls (workers s' ! i)))
              = length F
            \<and> distinct (drop (length (calls (workers s ! i))) (calls (workers s' ! i)))
            \<and> set (drop (length (calls (workers s ! i))) (calls (workers s' ! i)))
              = (\<lambda>u. (u, P)) ` set F
            \<and> inflight (workers s' ! i) = [])"
proof -
  let ?base = "calls (workers s ! i)"
  let ?cs = "drop (length ?base) (calls (workers s' ! i))"
  let ?all = "map (\<lambda>u. (u, P)) F"
  let ?s1 = "set_worker i ((workers s ! i)\<lparr>pc := WRange P F\<rparr>) (s\<lparr>jobs := rest\<rparr>)"
  have "idle_inv s"
    using idle_inv_run [OF idle_inv_start assms(1)] .
  then have idle: "inflight (workers s ! i) = []"
    using assms(2,3) by (auto simp: idle_inv_def list_all_length)
  have s1: "step um (WorkerRecv i (Inr F)) s = Some ?s1"
    using assms(2-5) by (simp add: processLoop_recv_def)
  have at1: "i < length (workers ?s1)" "pc (workers ?s1 ! i) = WRange P F"
    "inflight (workers ?s1 ! i) = []" "\<not> ctx_done ?s1"
    using assms(2,7) idle by simp_all
  have can: "\<exists>s2. run um (WorkerRecv i (Inr F) # fanout_in_turn i F) s = Some s2
      \<and> pc (workers s2 ! i) = WSelect"
    using fanout_in_turn_completes [OF at1, of um] s1 by auto
  have every: "take (length ?base) (calls (workers s' ! i)) = ?base
      \<and> length ?cs = length F \<and> distinct ?cs \<and> set ?cs = (\<lambda>u. (u, P)) ` set F
      \<and> inflight (workers s' ! i) = []"
    if run: "run um (WorkerRecv i (Inr F) # evs) s = Some s'"
      and quiet: "Cancel \<notin> set evs" "\<not> list_ex (is_recv_of i) evs"
      and at_select: "pc (workers s' ! i) = WSelect"
  proof -
    have run1: "run um evs ?s1 = Some s'"
      using run s1 by simp
    have "fan_inv P F ?base (workers ?s1 ! i)"
      using assms(2) idle by (simp add: fan_inv_def fan_state_def)
    then have "fan_inv P F ?base (workers s' ! i)"
      using fan_inv_run [OF run1 _ at1(1) at1(4) quiet] by blast
    then have fin: "take (length ?base) (calls (workers s' ! i)) = ?base"
      "inflight (workers s' ! i) = []" "mset ?cs = mset ?all"
      using at_select by (auto simp: fan_inv_def fan_state_def)
    have dist: "distinct ?all"
      using assms(6) by (simp add: distinct_map inj_on_def)
    have len: "length ?cs = length F"
      using mset_eq_length [OF fin(3)] by simp
    have dcs: "distinct ?cs"
      using mset_eq_imp_distinct_iff [OF fin(3)] dist by blast
    have scs: "set ?cs = (\<lambda>u. (u, P)) ` set F"
      using mset_eq_setD [OF fin(3)] by simp
    show ?thesis
      by (intro conjI fin(1) len dcs scs fin(2))
  qed
  show ?thesis
    using can every by blast
qed

theorem C1_fanout_one_call_per_follower_witness:
  "run test_unmarshal [ReadCheck, ReadReturn (Inr ''post-100''), Push Send]
      (Run_start False test_worker) = Some fanout_before
   \<and> run test_unmarshal (WorkerRecv 0 (Inr [''2'', ''3'']) # fanout_schedule) fanout_before
      = Some fanout_after
   \<and> calls (workers fanout_before ! 0) = []
   \<and> calls (workers fanout_after ! 0) = [(''3'', test_post), (''2'', test_post)]
   \<and> length (drop (length (calls (workers fanout_before ! 0))) (calls (workers fanout_after ! 0)))
       = length [''2'', ''3'']
   \<and> set (drop (length (calls (workers fanout_before ! 0))) (calls (workers fanout_after ! 0)))
       = (\<lambda>u. (u, test_post)) ` set [''2'', ''3'']"
proof -
  have h1: "run test_unmarshal [ReadCheck, ReadReturn (Inr ''post-100''), Push Send]
      (Run_start False test_worker) = Some fanout_before"
    by (simp add: fanout_before_def step_defs start_defs Let_def)
  have h2: "run test_unmarshal (WorkerRecv 0 (Inr [''2'', ''3'']) # fanout_schedule) fanout_before
      = Some fanout_after"
    by (simp add: fanout_before_def fanout_after_def fanout_schedule_def step_defs start_defs
        Let_def)
  have h3: "Cancel \<notin> set fanout_schedule" "\<not> list_ex (is_recv_of 0) fanout_schedule"
    by (simp_all add: fanout_schedule_def is_recv_of_def)
  have h4: "test_unmarshal ''post-100'' = Inr test_post"
    by (simp add: test_unmarshal_def)
  have h5: "0 < length (workers fanout_before)" "pc (workers fanout_before ! 0) = WSelect"
    "jobs fanout_before = ''post-100'' # []" "distinct [''2'', ''3'']"
    "\<not> ctx_done fanout_before" "pc (workers fanout_after ! 0) = WSelect"
    by (simp_all add: fanout_before_def fanout_after_def)
  have h6: "calls (workers fanout_before ! 0) = []"
    "calls (workers fanout_after ! 0) = [(''3'', test_post), (''2'', test_post)]"
    by (simp_all add: fanout_before_def fanout_after_def)
  note c = C1_fanout_one_call_per_follower
      [OF h1 h5(1) h5(2) h5(3) h4 h5(4) h5(5), of fanout_schedule fanout_after,
       THEN conjunct2, rule_format, OF conjI [OF h2 conjI [OF h3(1) conjI [OF h3(2) h5(6)]]]]
  note c1 = c [THEN conjunct2, THEN conjunct1]
  note c2 = c [THEN conjunct2, THEN conjunct2, THEN conjunct2, THEN conjunct1]
  show ?thesis
    by (intro conjI h1 h2 h6 c1 c2)
qed

end
